theory Spec2Isabelle
  imports Complex_Main "HOL-Library.Multiset"
begin

section \<open>Numbers and points\<close>

text \<open>
  A JavaScript number is idealised as a real (no rounding, no overflow). The functions of
  \<^verbatim>\<open>KdTree.ts\<close> can still leave the reals on real inputs: reading a coordinate past
  the end of a point gives \<^verbatim>\<open>undefined\<close>, arithmetic on it gives \<^verbatim>\<open>NaN\<close>, and
  \<^verbatim>\<open>depth % 0\<close> is \<^verbatim>\<open>NaN\<close>. Such a value is \<open>None\<close>; every comparison with it is
  false, as in JavaScript.
\<close>

type_synonym num = "real option"

type_synonym point = "real list"

definition js_mod :: "nat \<Rightarrow> nat \<Rightarrow> nat option" where
  \<comment> \<open>\<^verbatim>\<open>depth % k\<close> on non-negative integers\<close>
  "js_mod d k = (if k = 0 then None else Some (d mod k))"

definition idx :: "point \<Rightarrow> nat option \<Rightarrow> num" where
  \<comment> \<open>\<^verbatim>\<open>p[axis]\<close>, used as a number\<close>
  "idx p a = (case a of None \<Rightarrow> None | Some i \<Rightarrow> if i < length p then Some (p ! i) else None)"

definition num_sub :: "num \<Rightarrow> num \<Rightarrow> num" where
  "num_sub a b = (case a of None \<Rightarrow> None | Some x \<Rightarrow> (case b of None \<Rightarrow> None | Some y \<Rightarrow> Some (x - y)))"

definition num_add :: "num \<Rightarrow> num \<Rightarrow> num" where
  "num_add a b = (case a of None \<Rightarrow> None | Some x \<Rightarrow> (case b of None \<Rightarrow> None | Some y \<Rightarrow> Some (x + y)))"

definition num_mul :: "num \<Rightarrow> num \<Rightarrow> num" where
  "num_mul a b = (case a of None \<Rightarrow> None | Some x \<Rightarrow> (case b of None \<Rightarrow> None | Some y \<Rightarrow> Some (x * y)))"

definition num_lt :: "num \<Rightarrow> real \<Rightarrow> bool" where
  "num_lt a y = (case a of None \<Rightarrow> False | Some x \<Rightarrow> x < y)"

definition num_le :: "num \<Rightarrow> real \<Rightarrow> bool" where
  "num_le a y = (case a of None \<Rightarrow> False | Some x \<Rightarrow> x \<le> y)"

definition num_gt :: "num \<Rightarrow> real \<Rightarrow> bool" where
  "num_gt a y = (case a of None \<Rightarrow> False | Some x \<Rightarrow> y < x)"

definition num_abs :: "num \<Rightarrow> num" where
  "num_abs a = (case a of None \<Rightarrow> None | Some x \<Rightarrow> Some \<bar>x\<bar>)"


section \<open>Array.prototype.sort with a comparator\<close>

text \<open>
  \<^verbatim>\<open>sort\<close> is stable, and with a consistent comparator every stable sort gives the same
  array; it is modelled as insertion sort. An element moves behind another one only when
  the comparator is positive; a \<^verbatim>\<open>NaN\<close> from the comparator counts as zero.
\<close>

fun insort_cmp :: "('a \<Rightarrow> 'a \<Rightarrow> num) \<Rightarrow> 'a \<Rightarrow> 'a list \<Rightarrow> 'a list" where
  "insort_cmp c x [] = [x]"
| "insort_cmp c x (y # ys) = (if num_gt (c x y) 0 then y # insort_cmp c x ys else x # y # ys)"

definition js_sort :: "('a \<Rightarrow> 'a \<Rightarrow> num) \<Rightarrow> 'a list \<Rightarrow> 'a list" where
  "js_sort c xs = foldr (insort_cmp c) xs []"


section \<open>KdTree.ts\<close>

text \<open>
  A \<^verbatim>\<open>KDNode | null\<close> is a finite tree; \<^verbatim>\<open>axis\<close> is \<open>None\<close> when \<^verbatim>\<open>depth % k\<close> is
  \<^verbatim>\<open>NaN\<close>. A node owns its two children and is not changed after \<^verbatim>\<open>buildKDTree\<close> has
  returned it, so nodes are values here.
\<close>

datatype kdtree = Null | KDNode (point: point) (axis: "nat option") (left: kdtree) (right: kdtree)

function buildKDTree :: "point list \<Rightarrow> nat \<Rightarrow> kdtree" where
  "buildKDTree points depth =
     (if points = [] then Null
      else
        let k = length (points ! 0);
            axis = js_mod depth k;
            sorted = js_sort (\<lambda>a b. num_sub (idx a axis) (idx b axis)) points;
            mid = length sorted div 2
        in KDNode (sorted ! mid) axis
             (buildKDTree (take mid sorted) (depth + 1))
             (buildKDTree (drop (mid + 1) sorted) (depth + 1)))"
  by pat_completeness auto
termination
proof (relation "measure (\<lambda>(points, depth). length points)")
  have ins: "length (insort_cmp c x xs) = Suc (length xs)" for c :: "point \<Rightarrow> point \<Rightarrow> num" and x xs
    by (induction xs) auto
  have len: "length (js_sort c xs) = length xs" for c :: "point \<Rightarrow> point \<Rightarrow> num" and xs
    by (induction xs) (auto simp: js_sort_def ins)
  fix points :: "point list" and depth k :: nat and axis :: "nat option" and sorted :: "point list"
    and mid :: nat
  assume ne: "points \<noteq> []"
    and s: "sorted = js_sort (\<lambda>a b. num_sub (idx a axis) (idx b axis)) points"
    and m: "mid = length sorted div 2"
  show "((take mid sorted, depth + 1), points, depth) \<in> measure (\<lambda>(points, depth). length points)"
    using ne by (simp add: s m len)
  show "((drop (mid + 1) sorted, depth + 1), points, depth) \<in> measure (\<lambda>(points, depth). length points)"
    using ne by (simp add: s m len)
qed simp

declare buildKDTree.simps [simp del]

fun reduce_sq :: "point \<Rightarrow> point \<Rightarrow> nat \<Rightarrow> num \<Rightarrow> num" where
  \<comment> \<open>the \<^verbatim>\<open>reduce\<close> of \<^verbatim>\<open>distanceSquared\<close> from index \<open>i\<close> on, with accumulator \<open>s\<close>\<close>
  "reduce_sq [] p2 i s = s"
| "reduce_sq (v # vs) p2 i s =
     (let d = num_sub (Some v) (idx p2 (Some i))
      in reduce_sq vs p2 (i + 1) (num_add s (num_mul d d)))"

definition distanceSquared :: "point \<Rightarrow> point \<Rightarrow> num" where
  "distanceSquared p1 p2 = reduce_sq p1 p2 0 (Some 0)"

text \<open>
  \<^verbatim>\<open>rangeSearch\<close> pushes the matching nodes onto the array \<^verbatim>\<open>results\<close> and returns that
  array: the model takes the array and returns it with the matches appended.
\<close>

fun rangeSearch :: "kdtree \<Rightarrow> point \<Rightarrow> real \<Rightarrow> nat \<Rightarrow> kdtree list \<Rightarrow> kdtree list" where
  "rangeSearch Null target radiusMeters depth results = results"
| "rangeSearch (KDNode p a l r) target radiusMeters depth results =
     (let k = length target;
          axis = js_mod depth k;
          r2 = radiusMeters * radiusMeters;
          results1 = (if num_le (distanceSquared target p) r2
                      then results @ [KDNode p a l r] else results);
          diff = num_sub (idx target axis) (idx p axis);
          results2 = (if num_lt diff 0
                      then rangeSearch l target radiusMeters (depth + 1) results1
                      else rangeSearch r target radiusMeters (depth + 1) results1)
      in if num_le (num_abs diff) radiusMeters
         then (if num_lt diff 0
               then rangeSearch r target radiusMeters (depth + 1) results2
               else rangeSearch l target radiusMeters (depth + 1) results2)
         else results2)"


section \<open>The tree as data\<close>

fun tree_points :: "kdtree \<Rightarrow> point list" where
  "tree_points Null = []"
| "tree_points (KDNode p a l r) = p # tree_points l @ tree_points r"

fun node_count :: "kdtree \<Rightarrow> nat" where
  "node_count Null = 0"
| "node_count (KDNode p a l r) = 1 + node_count l + node_count r"

fun height :: "kdtree \<Rightarrow> nat" where
  "height Null = 0"
| "height (KDNode p a l r) = 1 + max (height l) (height r)"

text \<open>
  The partition invariant of a tree over points of \<open>k\<close> coordinates whose root is at
  depth \<open>d\<close>: the node splits on axis \<open>d mod k\<close>, no point of the left subtree is above
  the node on that axis, and no point of the right subtree is below it.
\<close>

fun invariant :: "nat \<Rightarrow> nat \<Rightarrow> kdtree \<Rightarrow> bool" where
  "invariant k d Null = True"
| "invariant k d (KDNode p a l r) =
     (a = Some (d mod k) \<and>
      (\<forall>q \<in> set (tree_points l). q ! (d mod k) \<le> p ! (d mod k)) \<and>
      (\<forall>q \<in> set (tree_points r). p ! (d mod k) \<le> q ! (d mod k)) \<and>
      invariant k (d + 1) l \<and> invariant k (d + 1) r)"


section \<open>The brute-force scan and the medians, as the specification words them\<close>

definition dsq :: "point \<Rightarrow> point \<Rightarrow> real" where
  "dsq p1 p2 = (\<Sum>j<length p1. (p1 ! j - p2 ! j) * (p1 ! j - p2 ! j))"

definition euclidean :: "point \<Rightarrow> point \<Rightarrow> real" where
  "euclidean p1 p2 = sqrt (dsq p1 p2)"

definition bruteForce :: "point list \<Rightarrow> point \<Rightarrow> real \<Rightarrow> point list" where
  "bruteForce ps target radius = filter (\<lambda>p. euclidean target p \<le> radius) ps"

definition lower_median :: "'a list \<Rightarrow> 'a" where
  "lower_median xs = xs ! ((length xs - 1) div 2)"

definition upper_median :: "'a list \<Rightarrow> 'a" where
  "upper_median xs = xs ! (length xs div 2)"


section \<open>buildKDTree on a store of arrays\<close>

text \<open>
  To see what \<^verbatim>\<open>buildKDTree\<close> does to its argument, the arrays of points live in a store:
  an array is known by its address, \<^verbatim>\<open>[...points]\<close> and \<^verbatim>\<open>slice\<close> allocate a new array,
  and \<^verbatim>\<open>sort\<close> sorts the array it is called on in place. The fuel bounds the depth of
  the nested calls; \<open>None\<close> means it ran out.
\<close>

type_synonym addr = nat

type_synonym store = "point list list"

definition spread :: "addr \<Rightarrow> store \<Rightarrow> addr \<times> store" where
  \<comment> \<open>\<^verbatim>\<open>[...a]\<close>\<close>
  "spread a h = (length h, h @ [h ! a])"

definition sort_in_place :: "(point \<Rightarrow> point \<Rightarrow> num) \<Rightarrow> addr \<Rightarrow> store \<Rightarrow> addr \<times> store" where
  \<comment> \<open>\<^verbatim>\<open>a.sort(c)\<close>: sorts the array at \<open>a\<close> and returns that same array\<close>
  "sort_in_place c a h = (a, h[a := js_sort c (h ! a)])"

definition slice :: "addr \<Rightarrow> nat \<Rightarrow> nat \<Rightarrow> store \<Rightarrow> addr \<times> store" where
  \<comment> \<open>\<^verbatim>\<open>a.slice(i, j)\<close>\<close>
  "slice a i j h = (length h, h @ [take (j - i) (drop i (h ! a))])"

definition slice_from :: "addr \<Rightarrow> nat \<Rightarrow> store \<Rightarrow> addr \<times> store" where
  \<comment> \<open>\<^verbatim>\<open>a.slice(i)\<close>\<close>
  "slice_from a i h = (length h, h @ [drop i (h ! a)])"

fun buildKDTree_store :: "nat \<Rightarrow> addr \<Rightarrow> nat \<Rightarrow> store \<Rightarrow> (kdtree \<times> store) option" where
  "buildKDTree_store 0 points depth h = None"
| "buildKDTree_store (Suc fuel) points depth h =
     (if h ! points = [] then Some (Null, h)
      else
        let k = length (h ! points ! 0);
            axis = js_mod depth k;
            (copy, h1) = spread points h;
            (sorted, h2) = sort_in_place (\<lambda>a b. num_sub (idx a axis) (idx b axis)) copy h1;
            mid = length (h2 ! sorted) div 2;
            p = h2 ! sorted ! mid;
            (lo, h3) = slice sorted 0 mid h2
        in case buildKDTree_store fuel lo (depth + 1) h3 of
             None \<Rightarrow> None
           | Some (l, h4) \<Rightarrow>
               let (hi, h5) = slice_from sorted (mid + 1) h4
               in case buildKDTree_store fuel hi (depth + 1) h5 of
                    None \<Rightarrow> None
                  | Some (r, h6) \<Rightarrow> Some (KDNode p axis l r, h6))"


section \<open>The recursions with a bound on their depth\<close>

text \<open>
  The two recursive functions again, with the depth of nested calls bounded by a fuel
  argument: \<open>None\<close> means that the bound was too small.
\<close>

fun buildKDTree_fuel :: "nat \<Rightarrow> point list \<Rightarrow> nat \<Rightarrow> kdtree option" where
  "buildKDTree_fuel 0 points depth = None"
| "buildKDTree_fuel (Suc fuel) points depth =
     (if points = [] then Some Null
      else
        let k = length (points ! 0);
            axis = js_mod depth k;
            sorted = js_sort (\<lambda>a b. num_sub (idx a axis) (idx b axis)) points;
            mid = length sorted div 2
        in case buildKDTree_fuel fuel (take mid sorted) (depth + 1) of
             None \<Rightarrow> None
           | Some l \<Rightarrow>
               (case buildKDTree_fuel fuel (drop (mid + 1) sorted) (depth + 1) of
                  None \<Rightarrow> None
                | Some r \<Rightarrow> Some (KDNode (sorted ! mid) axis l r)))"

fun rangeSearch_fuel ::
  "nat \<Rightarrow> kdtree \<Rightarrow> point \<Rightarrow> real \<Rightarrow> nat \<Rightarrow> kdtree list \<Rightarrow> kdtree list option" where
  "rangeSearch_fuel 0 tree target radiusMeters depth results = None"
| "rangeSearch_fuel (Suc fuel) Null target radiusMeters depth results = Some results"
| "rangeSearch_fuel (Suc fuel) (KDNode p a l r) target radiusMeters depth results =
     (let k = length target;
          axis = js_mod depth k;
          r2 = radiusMeters * radiusMeters;
          results1 = (if num_le (distanceSquared target p) r2
                      then results @ [KDNode p a l r] else results);
          diff = num_sub (idx target axis) (idx p axis)
      in case (if num_lt diff 0
               then rangeSearch_fuel fuel l target radiusMeters (depth + 1) results1
               else rangeSearch_fuel fuel r target radiusMeters (depth + 1) results1) of
           None \<Rightarrow> None
         | Some results2 \<Rightarrow>
             if num_le (num_abs diff) radiusMeters
             then (if num_lt diff 0
                   then rangeSearch_fuel fuel r target radiusMeters (depth + 1) results2
                   else rangeSearch_fuel fuel l target radiusMeters (depth + 1) results2)
             else Some results2)"


section \<open>The projection of benchmark.js\<close>

text \<open>
  \<^verbatim>\<open>Math.tan\<close> and \<^verbatim>\<open>Math.log\<close> on reals: \<open>None\<close> is a result that is not a real number
  (the tangent at a pole, the logarithm of zero or of a negative number).
\<close>

definition R :: real where
  "R = 6378137"

definition js_tan :: "real \<Rightarrow> num" where
  "js_tan x = (if cos x = 0 then None else Some (tan x))"

definition js_log :: "num \<Rightarrow> num" where
  "js_log a = (case a of None \<Rightarrow> None | Some x \<Rightarrow> if 0 < x then Some (ln x) else None)"

definition lonLatToMercator :: "real \<times> real \<Rightarrow> real \<times> num" where
  "lonLatToMercator = (\<lambda>(lon, lat).
     let lam = (lon * pi) / 180;
         phi = (lat * pi) / 180;
         x = R * lam;
         y = num_mul (Some R) (js_log (js_tan (pi / 4 + phi / 2)))
     in (x, y))"

text \<open>Degrees to radians, for the formula as the specification words it.\<close>

definition radians :: "real \<Rightarrow> real" where
  "radians deg = deg / 180 * pi"


section \<open>The sort is a stable sort by the axis coordinate\<close>

lemma length_insort_cmp [simp]: "length (insort_cmp c x xs) = Suc (length xs)"
  by (induction xs) auto

lemma length_js_sort [simp]: "length (js_sort c xs) = length xs"
  by (induction xs) (auto simp: js_sort_def)

lemma mset_insort_cmp [simp]: "mset (insort_cmp c x xs) = add_mset x (mset xs)"
  by (induction xs) auto

lemma mset_js_sort [simp]: "mset (js_sort c xs) = mset xs"
  by (induction xs) (auto simp: js_sort_def)

lemma set_js_sort [simp]: "set (js_sort c xs) = set xs"
  by (metis mset_js_sort set_mset_mset)

lemma insort_cmp_key:
  "i < length x \<Longrightarrow> \<forall>y \<in> set ys. i < length y \<Longrightarrow>
   insort_cmp (\<lambda>a b. num_sub (idx a (Some i)) (idx b (Some i))) x ys = insort_key (\<lambda>p. p ! i) x ys"
  by (induction ys) (auto simp: idx_def num_sub_def num_gt_def)

lemma js_sort_key:
  "\<forall>y \<in> set ys. i < length y \<Longrightarrow>
   js_sort (\<lambda>a b. num_sub (idx a (Some i)) (idx b (Some i))) ys = sort_key (\<lambda>p. p ! i) ys"
proof (induction ys)
  case Nil
  then show ?case by (simp add: js_sort_def)
next
  case (Cons y ys)
  then have "js_sort (\<lambda>a b. num_sub (idx a (Some i)) (idx b (Some i))) ys = sort_key (\<lambda>p. p ! i) ys"
    by simp
  moreover have "\<forall>z \<in> set (sort_key (\<lambda>p. p ! i) ys). i < length z"
    using Cons.prems by simp
  ultimately show ?case
    using Cons.prems insort_cmp_key [of i y "sort_key (\<lambda>p. p ! i) ys"]
    by (simp add: js_sort_def)
qed

lemma sorted_key_take_le:
  assumes "sorted (map f xs)" and "m < length xs" and "q \<in> set (take m xs)"
  shows "f q \<le> f (xs ! m)"
proof -
  from assms(3) obtain j where j: "j < length (take m xs)" "take m xs ! j = q"
    by (auto simp: in_set_conv_nth)
  then have "j < m" "xs ! j = q"
    by auto
  moreover have "map f xs ! j \<le> map f xs ! m"
    using assms(1,2) \<open>j < m\<close> by (intro sorted_nth_mono) auto
  ultimately show ?thesis
    using assms(2) by simp
qed

lemma sorted_key_drop_ge:
  assumes "sorted (map f xs)" and "m < length xs" and "q \<in> set (drop (m + 1) xs)"
  shows "f (xs ! m) \<le> f q"
proof -
  from assms(3) obtain j where j: "j < length (drop (m + 1) xs)" "drop (m + 1) xs ! j = q"
    by (auto simp: in_set_conv_nth)
  then have "m + 1 + j < length xs" "xs ! (m + 1 + j) = q"
    by auto
  moreover have "map f xs ! m \<le> map f xs ! (m + 1 + j)"
    using assms(1) \<open>m + 1 + j < length xs\<close> by (intro sorted_nth_mono) auto
  ultimately show ?thesis
    using assms(2) by simp
qed


section \<open>Unfolding buildKDTree\<close>

lemma buildKDTree_Nil: "buildKDTree [] depth = Null"
  by (simp add: buildKDTree.simps)

lemma buildKDTree_Cons:
  "points \<noteq> [] \<Longrightarrow>
   buildKDTree points depth =
     (let k = length (points ! 0);
          axis = js_mod depth k;
          sorted = js_sort (\<lambda>a b. num_sub (idx a axis) (idx b axis)) points;
          mid = length sorted div 2
      in KDNode (sorted ! mid) axis
           (buildKDTree (take mid sorted) (depth + 1))
           (buildKDTree (drop (mid + 1) sorted) (depth + 1)))"
  by (subst buildKDTree.simps) simp

lemma buildKDTree_step:
  assumes "ps \<noteq> []" and "\<forall>p \<in> set ps. length p = k" and "0 < k"
  shows "buildKDTree ps d =
     KDNode (sort_key (\<lambda>p. p ! (d mod k)) ps ! (length ps div 2)) (Some (d mod k))
       (buildKDTree (take (length ps div 2) (sort_key (\<lambda>p. p ! (d mod k)) ps)) (d + 1))
       (buildKDTree (drop (length ps div 2 + 1) (sort_key (\<lambda>p. p ! (d mod k)) ps)) (d + 1))"
proof -
  have "ps ! 0 \<in> set ps"
    using assms(1) by simp
  then have k: "length (ps ! 0) = k"
    using assms(2) by blast
  have "\<forall>p \<in> set ps. d mod k < length p"
    using assms(2,3) by simp
  then have "js_sort (\<lambda>a b. num_sub (idx a (Some (d mod k))) (idx b (Some (d mod k)))) ps
      = sort_key (\<lambda>p. p ! (d mod k)) ps"
    by (rule js_sort_key)
  then show ?thesis
    using assms(1,3) k by (simp add: buildKDTree_Cons js_mod_def Let_def)
qed


section \<open>The points of a built tree\<close>

lemma mset_tree_points_build: "mset (tree_points (buildKDTree ps d)) = mset ps"
proof (induction "length ps" arbitrary: ps d rule: less_induct)
  case less
  show ?case
  proof (cases "ps = []")
    case True
    then show ?thesis by (simp add: buildKDTree_Nil)
  next
    case False
    define axis where "axis = js_mod d (length (ps ! 0))"
    define s where "s = js_sort (\<lambda>a b. num_sub (idx a axis) (idx b axis)) ps"
    define m where "m = length s div 2"
    have m: "m < length s"
      using False by (simp add: m_def s_def)
    have l: "mset (tree_points (buildKDTree (take m s) (d + 1))) = mset (take m s)"
      using m by (intro less.hyps) (simp add: s_def)
    have r: "mset (tree_points (buildKDTree (drop (m + 1) s) (d + 1))) = mset (drop (m + 1) s)"
      using m by (intro less.hyps) (simp add: s_def)
    have "s = take m s @ s ! m # drop (m + 1) s"
      using m by (simp add: id_take_nth_drop)
    then have "mset s = add_mset (s ! m) (mset (take m s) + mset (drop (m + 1) s))"
      by (metis mset.simps(2) mset_append union_mset_add_mset_right)
    moreover have "buildKDTree ps d =
        KDNode (s ! m) axis (buildKDTree (take m s) (d + 1)) (buildKDTree (drop (m + 1) s) (d + 1))"
      using False by (simp add: buildKDTree_Cons Let_def axis_def s_def m_def)
    ultimately show ?thesis
      using l r by (simp add: s_def)
  qed
qed

lemma set_tree_points_build: "set (tree_points (buildKDTree ps d)) = set ps"
  by (metis mset_tree_points_build set_mset_mset)

lemma length_tree_points: "length (tree_points t) = node_count t"
  by (induction t) auto

lemma invariant_build:
  "\<forall>p \<in> set ps. length p = k \<Longrightarrow> 0 < k \<Longrightarrow> invariant k d (buildKDTree ps d)"
proof (induction "length ps" arbitrary: ps d rule: less_induct)
  case less
  show ?case
  proof (cases "ps = []")
    case True
    then show ?thesis by (simp add: buildKDTree_Nil)
  next
    case False
    define f where "f = (\<lambda>p::point. p ! (d mod k))"
    define s where "s = sort_key f ps"
    define m where "m = length ps div 2"
    have m: "m < length s"
      using False by (simp add: m_def s_def)
    have srt: "sorted (map f s)"
      by (simp add: s_def)
    have wf: "\<forall>p \<in> set s. length p = k"
      using less.prems(1) by (simp add: s_def)
    have step: "buildKDTree ps d = KDNode (s ! m) (Some (d mod k))
        (buildKDTree (take m s) (d + 1)) (buildKDTree (drop (m + 1) s) (d + 1))"
      using buildKDTree_step [OF False less.prems] by (simp add: s_def f_def m_def)
    have l: "invariant k (d + 1) (buildKDTree (take m s) (d + 1))"
    proof (rule less.hyps)
      show "length (take m s) < length ps" using m by (simp add: s_def)
      show "\<forall>p \<in> set (take m s). length p = k" using wf by (meson in_set_takeD)
      show "0 < k" by (rule less.prems)
    qed
    have r: "invariant k (d + 1) (buildKDTree (drop (m + 1) s) (d + 1))"
    proof (rule less.hyps)
      show "length (drop (m + 1) s) < length ps" using m by (simp add: s_def)
      show "\<forall>p \<in> set (drop (m + 1) s). length p = k" using wf by (meson in_set_dropD)
      show "0 < k" by (rule less.prems)
    qed
    have "\<forall>q \<in> set (take m s). f q \<le> f (s ! m)"
      using sorted_key_take_le [OF srt m] by blast
    moreover have "\<forall>q \<in> set (drop (m + 1) s). f (s ! m) \<le> f q"
      using sorted_key_drop_ge [OF srt m] by blast
    ultimately show ?thesis
      using l r by (simp add: step set_tree_points_build f_def)
  qed
qed


section \<open>The squared distance\<close>

lemma reduce_sq_Some:
  "i + length vs \<le> length p2 \<Longrightarrow>
   reduce_sq vs p2 i (Some s) =
     Some (s + (\<Sum>j<length vs. (vs ! j - p2 ! (i + j)) * (vs ! j - p2 ! (i + j))))"
proof (induction vs arbitrary: i s)
  case Nil
  then show ?case by simp
next
  case (Cons v vs)
  then show ?case
    by (simp add: idx_def num_sub_def num_add_def num_mul_def sum.lessThan_Suc_shift add.assoc
        del: sum.lessThan_Suc)
qed

lemma reduce_sq_None: "reduce_sq vs p2 i None = None"
  by (induction vs arbitrary: i) (auto simp: num_add_def)

lemma reduce_sq_short:
  "length p2 < i + length vs \<Longrightarrow> i \<le> length p2 \<Longrightarrow> reduce_sq vs p2 i s = None"
proof (induction vs arbitrary: i s)
  case Nil
  then show ?case by simp
next
  case (Cons v vs)
  show ?case
  proof (cases "i < length p2")
    case True
    then have "length p2 < (i + 1) + length vs" and "i + 1 \<le> length p2"
      using Cons.prems by simp_all
    then show ?thesis
      using Cons.IH [of "i + 1"] by (simp add: Let_def)
  next
    case False
    then have "num_sub (Some v) (idx p2 (Some i)) = None"
      by (simp add: idx_def num_sub_def)
    then show ?thesis
      by (simp add: num_mul_def num_add_def reduce_sq_None split: option.splits)
  qed
qed

lemma distanceSquared_eq:
  "distanceSquared p1 p2 = (if length p1 \<le> length p2 then Some (dsq p1 p2) else None)"
  using reduce_sq_Some [of 0 p1 p2 0] reduce_sq_short [of p2 0 p1 "Some 0"]
  by (simp add: distanceSquared_def dsq_def)

lemma distanceSquared_planar:
  "distanceSquared [a, b] [c, d] = Some ((a - c) * (a - c) + (b - d) * (b - d))"
  by (simp add: distanceSquared_def idx_def num_sub_def num_add_def num_mul_def)

lemma dsq_nonneg: "0 \<le> dsq p1 p2"
  unfolding dsq_def by (rule sum_nonneg) simp

lemma axis_le_dsq: "a < length p1 \<Longrightarrow> (p1 ! a - p2 ! a) * (p1 ! a - p2 ! a) \<le> dsq p1 p2"
  unfolding dsq_def
  by (rule member_le_sum [of a "{..<length p1}" "\<lambda>j. (p1 ! j - p2 ! j) * (p1 ! j - p2 ! j)"]) auto

lemma dsq_zero_coords:
  assumes "dsq p1 p2 \<le> 0" and "j < length p1"
  shows "p2 ! j = p1 ! j"
proof -
  have "(p1 ! j - p2 ! j) * (p1 ! j - p2 ! j) \<le> 0"
    using axis_le_dsq [OF assms(2), of p2] assms(1) by simp
  then show ?thesis
    by (simp add: mult_le_0_iff) argo
qed

lemma far_outside:
  fixes x r :: real
  assumes "0 \<le> r" and "r < \<bar>x\<bar>"
  shows "r * r < x * x"
proof -
  have "r * r < \<bar>x\<bar> * \<bar>x\<bar>"
    using assms by (intro mult_strict_mono') auto
  then show ?thesis by simp
qed

lemma euclidean_le_iff: "0 \<le> r \<Longrightarrow> euclidean p1 p2 \<le> r \<longleftrightarrow> dsq p1 p2 \<le> r * r"
proof
  assume "0 \<le> r" and "euclidean p1 p2 \<le> r"
  then have "dsq p1 p2 \<le> r\<^sup>2"
    unfolding euclidean_def by (intro sqrt_le_D)
  then show "dsq p1 p2 \<le> r * r"
    by (simp add: power2_eq_square)
next
  assume "0 \<le> r" and "dsq p1 p2 \<le> r * r"
  then show "euclidean p1 p2 \<le> r"
    unfolding euclidean_def by (intro real_le_lsqrt) (simp_all add: power2_eq_square)
qed

lemma euclidean_nonneg: "0 \<le> euclidean p1 p2"
  by (simp add: euclidean_def dsq_nonneg)


section \<open>Unfolding rangeSearch\<close>

lemma rangeSearch_acc:
  "rangeSearch t target r d res = res @ rangeSearch t target r d []"
proof (induction t arbitrary: d res)
  case Null
  then show ?case by simp
next
  case (KDNode p a l rt)
  note l = KDNode.IH(1) and rt = KDNode.IH(2)
  show ?case
    apply (simp only: rangeSearch.simps Let_def)
    apply (subst (1 2 3 4 5 6 7 8) l)
    apply (subst (1 2 3 4 5 6 7 8) rt)
    apply (simp split: if_splits)
    done
qed

lemma rangeSearch_unfold:
  "rangeSearch (KDNode p a l rt) target r d res =
     (let diff = num_sub (idx target (js_mod d (length target))) (idx p (js_mod d (length target)))
      in res
         @ (if num_le (distanceSquared target p) (r * r) then [KDNode p a l rt] else [])
         @ (if num_lt diff 0 then rangeSearch l target r (d + 1) []
            else rangeSearch rt target r (d + 1) [])
         @ (if num_le (num_abs diff) r
            then (if num_lt diff 0 then rangeSearch rt target r (d + 1) []
                  else rangeSearch l target r (d + 1) [])
            else []))"
  by (simp add: Let_def rangeSearch_acc [of _ _ _ _ "_ @ _"] rangeSearch_acc [of _ _ _ _ "_ # _"]
      rangeSearch_acc [of _ _ _ _ "rangeSearch _ _ _ _ _"] rangeSearch_acc [of _ _ _ _ res])

lemma rangeSearch_sound:
  "n \<in> set (rangeSearch t target r d []) \<Longrightarrow>
   num_le (distanceSquared target (point n)) (r * r) \<and> point n \<in> set (tree_points t)"
proof (induction t arbitrary: d)
  case Null
  then show ?case by simp
next
  case (KDNode p a l rt)
  from KDNode.prems consider
      "num_le (distanceSquared target p) (r * r)" "n = KDNode p a l rt"
    | "n \<in> set (rangeSearch l target r (d + 1) [])"
    | "n \<in> set (rangeSearch rt target r (d + 1) [])"
    unfolding rangeSearch_unfold Let_def by (auto split: if_splits)
  then show ?case
  proof cases
    case 1
    then show ?thesis by simp
  next
    case 2
    then show ?thesis using KDNode.IH(1) by simp
  next
    case 3
    then show ?thesis using KDNode.IH(2) by simp
  qed
qed

lemma rangeSearch_built:
  assumes "invariant k d t" and "0 < k" and "length target = k"
    and "\<forall>p \<in> set (tree_points t). length p = k" and "0 \<le> r"
  shows "mset (map point (rangeSearch t target r d [])) =
         filter_mset (\<lambda>p. num_le (distanceSquared target p) (r * r)) (mset (tree_points t))"
  using assms(1,4)
proof (induction t arbitrary: d)
  case Null
  then show ?case by simp
next
  case (KDNode p a l rt)
  define ax where "ax = d mod k"
  define diff where "diff = target ! ax - p ! ax"
  let ?in = "\<lambda>p. num_le (distanceSquared target p) (r * r)"
  have ax: "ax < k"
    using assms(2) by (simp add: ax_def)
  have len: "length p = k"
    using KDNode.prems(2) by simp
  have L: "mset (map point (rangeSearch l target r (d + 1) [])) = filter_mset ?in (mset (tree_points l))"
    using KDNode.IH(1) [of "d + 1"] KDNode.prems by simp
  have R: "mset (map point (rangeSearch rt target r (d + 1) [])) = filter_mset ?in (mset (tree_points rt))"
    using KDNode.IH(2) [of "d + 1"] KDNode.prems by simp
  have far: "\<not> ?in q" if "length q = k" and "r < \<bar>target ! ax - q ! ax\<bar>" for q
  proof -
    have "r * r < (target ! ax - q ! ax) * (target ! ax - q ! ax)"
      using assms(5) that(2) by (rule far_outside)
    also have "\<dots> \<le> dsq target q"
      using ax assms(3) by (intro axis_le_dsq) simp
    finally show ?thesis
      using that(1) assms(3) by (simp add: distanceSquared_eq num_le_def)
  qed
  have farR: "filter_mset ?in (mset (tree_points rt)) = {#}" if "diff < 0" "r < \<bar>diff\<bar>"
  proof -
    have "\<not> ?in q" if q: "q \<in> set (tree_points rt)" for q
    proof (rule far)
      show "length q = k" using KDNode.prems(2) q by simp
      have "p ! ax \<le> q ! ax" using KDNode.prems(1) q by (simp add: ax_def)
      then show "r < \<bar>target ! ax - q ! ax\<bar>"
        using \<open>diff < 0\<close> \<open>r < \<bar>diff\<bar>\<close> by (simp add: diff_def)
    qed
    then show ?thesis by simp
  qed
  have farL: "filter_mset ?in (mset (tree_points l)) = {#}" if "\<not> diff < 0" "r < \<bar>diff\<bar>"
  proof -
    have "\<not> ?in q" if q: "q \<in> set (tree_points l)" for q
    proof (rule far)
      show "length q = k" using KDNode.prems(2) q by simp
      have "q ! ax \<le> p ! ax" using KDNode.prems(1) q by (simp add: ax_def)
      then show "r < \<bar>target ! ax - q ! ax\<bar>"
        using \<open>\<not> diff < 0\<close> \<open>r < \<bar>diff\<bar>\<close> by (simp add: diff_def)
    qed
    then show ?thesis by simp
  qed
  have d: "num_sub (idx target (js_mod d (length target))) (idx p (js_mod d (length target))) = Some diff"
    using ax assms(2,3) len by (simp add: js_mod_def idx_def num_sub_def diff_def ax_def)
  have node: "mset (map point (rangeSearch (KDNode p a l rt) target r d [])) =
      (if ?in p then {#p#} else {#})
      + (if diff < 0 then filter_mset ?in (mset (tree_points l)) else filter_mset ?in (mset (tree_points rt)))
      + (if \<bar>diff\<bar> \<le> r
         then (if diff < 0 then filter_mset ?in (mset (tree_points rt)) else filter_mset ?in (mset (tree_points l)))
         else {#})"
    unfolding rangeSearch_unfold Let_def d
    using L R by (simp add: num_lt_def num_le_def num_abs_def)
  show ?case
  proof (cases "r < \<bar>diff\<bar>")
    case True
    then show ?thesis
      unfolding node using farR farL by (cases "diff < 0") simp_all
  next
    case False
    then show ?thesis
      unfolding node by (cases "diff < 0") simp_all
  qed
qed

lemma rangeSearch_build_mset:
  assumes "\<forall>p \<in> set ps. length p = k" and "0 < k" and "length target = k" and "0 \<le> r"
  shows "mset (map point (rangeSearch (buildKDTree ps d) target r d [])) =
         filter_mset (\<lambda>p. num_le (distanceSquared target p) (r * r)) (mset ps)"
proof -
  have "invariant k d (buildKDTree ps d)"
    using assms(1,2) by (rule invariant_build)
  moreover have "\<forall>p \<in> set (tree_points (buildKDTree ps d)). length p = k"
    using assms(1) by (simp add: set_tree_points_build)
  ultimately show ?thesis
    using rangeSearch_built [of k d "buildKDTree ps d" target r] assms(2,3,4)
    by (simp add: mset_tree_points_build)
qed

lemmas run_simps = buildKDTree_Cons buildKDTree_Nil Let_def js_sort_def js_mod_def idx_def
  num_sub_def num_gt_def num_le_def num_lt_def num_abs_def distanceSquared_planar


section \<open>Empty input\<close>

text \<open>
  C6. Building from the empty list of points gives the absent tree, and searching the
  absent tree gives the empty list of matches, for every target, radius and depth.
\<close>

theorem empty_tree_empty_result:
  "buildKDTree [] depth = Null \<and> rangeSearch (buildKDTree [] depth) target radius depth' [] = []"
  by (simp add: buildKDTree_Nil)


section \<open>The partition invariant\<close>

text \<open>
  C2. In the tree built from planar points, every node at depth \<open>d\<close> splits on axis
  \<open>d mod 2\<close>; every point of its left subtree is less than or tied with the node on that
  axis, and every point of its right subtree is greater than or equal to it.
\<close>

theorem buildKDTree_invariant:
  assumes "\<forall>p \<in> set ps. length p = 2"
  shows "invariant 2 depth (buildKDTree ps depth)"
  using assms by (intro invariant_build) simp_all

theorem buildKDTree_invariant_witness:
  "list_all (\<lambda>p. length p = 2) [[0, 0], [10, 0], [0, 10 :: real]] \<and>
   invariant 2 0 (buildKDTree [[0, 0], [10, 0], [0, 10]] 0)"
  using buildKDTree_invariant [of "[[0, 0], [10, 0], [0, 10]]" 0] by simp


section \<open>Range search against the brute-force scan\<close>

text \<open>
  C1, as amended. For planar points, a planar target and a radius that is not negative,
  the set of points that \<open>rangeSearch\<close> returns over the tree built from the points is the
  set of points whose Euclidean distance to the target is at most the radius.
\<close>

theorem rangeSearch_equals_bruteForce:
  assumes "\<forall>p \<in> set ps. length p = 2" and "length target = 2" and "0 \<le> radius"
  shows "set (map point (rangeSearch (buildKDTree ps 0) target radius 0 [])) =
         set (bruteForce ps target radius)"
proof -
  have "mset (map point (rangeSearch (buildKDTree ps 0) target radius 0 [])) =
      filter_mset (\<lambda>p. num_le (distanceSquared target p) (radius * radius)) (mset ps)"
    using assms by (intro rangeSearch_build_mset [of ps 2]) simp_all
  then have "set (map point (rangeSearch (buildKDTree ps 0) target radius 0 [])) =
      {p \<in> set ps. num_le (distanceSquared target p) (radius * radius)}"
    by (metis set_mset_filter set_mset_mset)
  moreover have "num_le (distanceSquared target p) (radius * radius) \<longleftrightarrow> euclidean target p \<le> radius"
    if "p \<in> set ps" for p
    using that assms by (simp add: distanceSquared_eq num_le_def euclidean_le_iff)
  ultimately show ?thesis
    by (auto simp: bruteForce_def)
qed

theorem rangeSearch_equals_bruteForce_witness:
  "list_all (\<lambda>p. length p = 2) [[0, 0], [10, 0], [0, 10 :: real]] \<and> length [0, 0 :: real] = 2 \<and>
   (0 :: real) \<le> 5 \<and>
   set (map point (rangeSearch (buildKDTree [[0, 0], [10, 0], [0, 10]] 0) [0, 0] 5 0 [])) =
   set (bruteForce [[0, 0], [10, 0], [0, 10]] [0, 0] 5)"
  using rangeSearch_equals_bruteForce [of "[[0, 0], [10, 0], [0, 10]]" "[0, 0]" 5] by simp

text \<open>
  With a negative radius the two differ: the match test compares squared numbers, and
  the far side of a node is never visited.
\<close>

theorem rangeSearch_negative_radius_counterexample:
  "set (map point (rangeSearch (buildKDTree [[0, 0], [1, 0], [2, 0]] 0) [0, 0] (- 5) 0 [])) \<noteq>
   set (bruteForce [[0, 0], [1, 0], [2, 0]] [0, 0] (- 5))"
proof -
  have "map point (rangeSearch (buildKDTree [[0, 0], [1, 0], [2, 0]] 0) [0, 0] (- 5) 0 []) =
      [[1, 0], [0, 0]]"
    by (simp add: run_simps)
  moreover have "\<not> euclidean [0, 0] p \<le> - 5" for p
    using euclidean_nonneg [of "[0, 0]" p] by simp
  then have "bruteForce [[0, 0], [1, 0], [2, 0]] [0, 0] (- 5) = []"
    by (simp add: bruteForce_def)
  ultimately show ?thesis by simp
qed


section \<open>Zero and negative radius\<close>

text \<open>
  A node whose point is the target is matched with radius zero, and also with a negative
  radius, whose square is positive.
\<close>

theorem rangeSearch_nonpositive_radius_counterexample:
  "rangeSearch (buildKDTree [[0, 0]] 0) [0, 0] 0 0 [] \<noteq> [] \<and>
   rangeSearch (buildKDTree [[0, 0]] 0) [0, 0] (- 1) 0 [] \<noteq> []"
  by (simp add: run_simps)

text \<open>
  C3, as amended. For every tree and target, \<open>rangeSearch\<close> with a radius that is zero or
  negative returns only nodes of the tree whose squared distance to the target is at most
  the squared radius; with radius zero these are nodes whose point has the target's
  coordinates. The match set is empty when the tree has no such point.
\<close>

theorem rangeSearch_nonpositive_radius:
  assumes "radius \<le> 0"
  shows "(\<forall>n \<in> set (rangeSearch t target radius depth []).
            point n \<in> set (tree_points t) \<and>
            num_le (distanceSquared target (point n)) (radius * radius)) \<and>
         (radius = 0 \<longrightarrow>
            (\<forall>n \<in> set (rangeSearch t target radius depth []). take (length target) (point n) = target)) \<and>
         ((\<forall>p \<in> set (tree_points t). \<not> num_le (distanceSquared target p) (radius * radius)) \<longrightarrow>
            rangeSearch t target radius depth [] = [])"
proof (intro conjI impI ballI)
  fix n
  assume "n \<in> set (rangeSearch t target radius depth [])"
  then show "point n \<in> set (tree_points t)"
    and "num_le (distanceSquared target (point n)) (radius * radius)"
    using rangeSearch_sound by blast+
next
  fix n
  assume "radius = 0" and "n \<in> set (rangeSearch t target radius depth [])"
  then have "num_le (distanceSquared target (point n)) 0"
    using rangeSearch_sound [of n t target radius depth] by simp
  then have len: "length target \<le> length (point n)" and zero: "dsq target (point n) \<le> 0"
    by (simp_all add: distanceSquared_eq num_le_def split: if_splits)
  show "take (length target) (point n) = target"
  proof (rule nth_equalityI)
    show "length (take (length target) (point n)) = length target"
      using len by simp
    fix j
    assume "j < length (take (length target) (point n))"
    then show "take (length target) (point n) ! j = target ! j"
      using dsq_zero_coords [OF zero, of j] by simp
  qed
next
  assume none: "\<forall>p \<in> set (tree_points t). \<not> num_le (distanceSquared target p) (radius * radius)"
  have "n \<notin> set (rangeSearch t target radius depth [])" for n
    using rangeSearch_sound [of n t target radius depth] none by blast
  then show "rangeSearch t target radius depth [] = []"
    by (meson last_in_set)
qed

theorem rangeSearch_nonpositive_radius_witness:
  "(- 1 :: real) \<le> 0 \<and>
   rangeSearch (buildKDTree [[3, 4]] 0) [0, 0] (- 1) 0 [] = [] \<and>
   rangeSearch (buildKDTree [[0, 0], [3, 4]] 0) [0, 0] 0 0 [] = [KDNode [0, 0] (Some 1) Null Null]"
proof -
  have "\<forall>p \<in> set (tree_points (buildKDTree [[3, 4]] 0)). \<not> num_le (distanceSquared [0, 0] p) (- 1 * - 1)"
    by (simp add: run_simps)
  then have "rangeSearch (buildKDTree [[3, 4]] 0) [0, 0] (- 1) 0 [] = []"
    using rangeSearch_nonpositive_radius [of "- 1" "buildKDTree [[3, 4]] 0" "[0, 0]" 0] by simp
  moreover have "rangeSearch (buildKDTree [[0, 0], [3, 4]] 0) [0, 0] 0 0 [] = [KDNode [0, 0] (Some 1) Null Null]"
    by (simp add: run_simps)
  ultimately show ?thesis by simp
qed


section \<open>The three-point scenario\<close>

text \<open>
  C5. For the points (0,0), (10,0), (0,10) and the centre (0,0): radius 10.0001 matches
  the three points, each once; radius 9.9 matches (0,0) only; and the test is inclusive:
  (10,0) is at distance 10 and is matched with radius 10.
\<close>

theorem three_point_scenario:
  "set (map point (rangeSearch (buildKDTree [[0, 0], [10, 0], [0, 10]] 0) [0, 0] 10.0001 0 [])) =
     {[0, 0], [10, 0], [0, 10]} \<and>
   length (rangeSearch (buildKDTree [[0, 0], [10, 0], [0, 10]] 0) [0, 0] 10.0001 0 []) = 3 \<and>
   map point (rangeSearch (buildKDTree [[0, 0], [10, 0], [0, 10]] 0) [0, 0] 9.9 0 []) = [[0, 0]] \<and>
   euclidean [0, 0] [10, 0] = 10 \<and>
   [10, 0] \<in> set (map point (rangeSearch (buildKDTree [[0, 0], [10, 0], [0, 10]] 0) [0, 0] 10 0 []))"
proof -
  have t: "buildKDTree [[0, 0], [10, 0], [0, 10]] 0 =
      KDNode [0, 10] (Some 0) (KDNode [0, 0] (Some 1) Null Null) (KDNode [10, 0] (Some 1) Null Null)"
    by (simp add: run_simps)
  have a: "map point (rangeSearch (buildKDTree [[0, 0], [10, 0], [0, 10]] 0) [0, 0] 10.0001 0 []) =
      [[0, 10], [10, 0], [0, 0]]"
    unfolding t by (simp add: run_simps)
  have b: "map point (rangeSearch (buildKDTree [[0, 0], [10, 0], [0, 10]] 0) [0, 0] 9.9 0 []) = [[0, 0]]"
    unfolding t by (simp add: run_simps)
  have c: "map point (rangeSearch (buildKDTree [[0, 0], [10, 0], [0, 10]] 0) [0, 0] 10 0 []) =
      [[0, 10], [10, 0], [0, 0]]"
    unfolding t by (simp add: run_simps)
  have "dsq [0, 0] [10, 0] = 10\<^sup>2"
    by (simp add: dsq_def lessThan_Suc numeral_2_eq_2)
  then have e: "euclidean [0, 0] [10, 0] = 10"
    by (simp add: euclidean_def)
  have "length (rangeSearch (buildKDTree [[0, 0], [10, 0], [0, 10]] 0) [0, 0] 10.0001 0 []) =
      length (map point (rangeSearch (buildKDTree [[0, 0], [10, 0], [0, 10]] 0) [0, 0] 10.0001 0 []))"
    by simp
  then have l: "length (rangeSearch (buildKDTree [[0, 0], [10, 0], [0, 10]] 0) [0, 0] 10.0001 0 []) = 3"
    unfolding a by simp
  show ?thesis
    unfolding a b c using e l by auto
qed


section \<open>One node for each input point\<close>

text \<open>
  C7, as amended. The points stored in the tree are the input points with their
  multiplicities, so the tree has as many nodes as there are input points and equal input
  points have a node each. For planar points, a planar target and a radius that is not
  negative, the matched points are the input points within the radius, with their
  multiplicities: equal input points are matched independently.
\<close>

theorem buildKDTree_keeps_points:
  "mset (tree_points (buildKDTree ps depth)) = mset ps \<and>
   node_count (buildKDTree ps depth) = length ps \<and>
   ((\<forall>p \<in> set ps. length p = 2) \<and> length target = 2 \<and> 0 \<le> radius \<longrightarrow>
      mset (map point (rangeSearch (buildKDTree ps 0) target radius 0 [])) =
      filter_mset (\<lambda>p. num_le (distanceSquared target p) (radius * radius)) (mset ps))"
proof (intro conjI impI)
  show m: "mset (tree_points (buildKDTree ps depth)) = mset ps"
    by (rule mset_tree_points_build)
  have "length (tree_points (buildKDTree ps depth)) = length ps"
    using m by (metis size_mset)
  then show "node_count (buildKDTree ps depth) = length ps"
    by (simp add: length_tree_points)
next
  assume "(\<forall>p \<in> set ps. length p = 2) \<and> length target = 2 \<and> 0 \<le> radius"
  then show "mset (map point (rangeSearch (buildKDTree ps 0) target radius 0 [])) =
      filter_mset (\<lambda>p. num_le (distanceSquared target p) (radius * radius)) (mset ps)"
    by (intro rangeSearch_build_mset [of ps 2]) simp_all
qed

theorem buildKDTree_keeps_points_witness:
  "list_all (\<lambda>p. length p = 2) [[1, 1], [5, 5], [1, 1 :: real]] \<and> length [1, 1 :: real] = 2 \<and>
   (0 :: real) \<le> 1 \<and>
   node_count (buildKDTree [[1, 1], [5, 5], [1, 1]] 0) = 3 \<and>
   mset (map point (rangeSearch (buildKDTree [[1, 1], [5, 5], [1, 1]] 0) [1, 1] 1 0 [])) =
     {#[1, 1], [1, 1]#}"
  using buildKDTree_keeps_points [of "[[1, 1], [5, 5], [1, 1]]" 0 "[1, 1]" 1]
  by (simp add: distanceSquared_planar num_le_def)

text \<open>
  With a negative radius equal points are not matched independently: the two nodes of the
  tree built from (1,1) and (1,1) both pass the match test at the target (1,1) with
  radius -1, and the search returns the root only, since the far side is never visited.
\<close>

theorem duplicates_negative_radius_counterexample:
  "tree_points (buildKDTree [[1, 1], [1, 1]] 0) = [[1, 1], [1, 1]] \<and>
   num_le (distanceSquared [1, 1] [1, 1]) (- 1 * - 1) \<and>
   map point (rangeSearch (buildKDTree [[1, 1], [1, 1]] 0) [1, 1] (- 1) 0 []) = [[1, 1]]"
  by (simp add: run_simps)


section \<open>The median split\<close>

text \<open>
  The node's point is the element at index \<open>length div 2\<close> of the sorted points, and for
  two points that is the larger one, not the lower median.
\<close>

theorem lower_median_counterexample:
  "point (buildKDTree [[0, 0], [1, 0]] 0) \<noteq> lower_median (sort_key (\<lambda>p. p ! 0) [[0, 0], [1, 0 :: real]])"
  by (simp add: run_simps lower_median_def)

text \<open>
  C4, as amended. For every non-empty list of points and every depth, \<open>buildKDTree\<close>
  sorts the points with the comparator of the axis coordinate, takes the element at index
  \<open>length div 2\<close>, the upper median when the count is even, as the node's point, builds
  the left subtree from exactly the elements before that index and the right subtree from
  exactly the elements after it, at depth \<open>depth + 1\<close>; so the left subtree has
  \<open>length div 2\<close> nodes and the right one \<open>(length - 1) div 2\<close>. When all points have
  \<open>k\<close> coordinates, the axis is \<open>depth mod k\<close> and the sort is the stable sort by that
  coordinate.
\<close>

theorem buildKDTree_median_split:
  fixes ps :: "point list" and depth :: nat
  assumes "ps \<noteq> []"
  defines "ax \<equiv> js_mod depth (length (ps ! 0))"
  defines "s \<equiv> js_sort (\<lambda>a b. num_sub (idx a ax) (idx b ax)) ps"
    and "m \<equiv> length ps div 2"
  shows "buildKDTree ps depth =
           KDNode (upper_median s) ax
             (buildKDTree (take m s) (depth + 1)) (buildKDTree (drop (m + 1) s) (depth + 1)) \<and>
         mset s = mset ps \<and>
         mset (tree_points (left (buildKDTree ps depth))) = mset (take m s) \<and>
         mset (tree_points (right (buildKDTree ps depth))) = mset (drop (m + 1) s) \<and>
         node_count (left (buildKDTree ps depth)) = length ps div 2 \<and>
         node_count (right (buildKDTree ps depth)) = (length ps - 1) div 2 \<and>
         ((\<forall>p \<in> set ps. length p = k) \<and> 0 < k \<longrightarrow>
            ax = Some (depth mod k) \<and> s = sort_key (\<lambda>p. p ! (depth mod k)) ps \<and>
            sorted (map (\<lambda>p. p ! (depth mod k)) s))"
proof -
  have step: "buildKDTree ps depth =
      KDNode (upper_median s) ax
        (buildKDTree (take m s) (depth + 1)) (buildKDTree (drop (m + 1) s) (depth + 1))"
    using assms(1) by (simp add: buildKDTree_Cons Let_def ax_def s_def m_def upper_median_def)
  have l: "mset (tree_points (left (buildKDTree ps depth))) = mset (take m s)"
    and r: "mset (tree_points (right (buildKDTree ps depth))) = mset (drop (m + 1) s)"
    unfolding step by (simp_all add: mset_tree_points_build)
  have "length (tree_points (left (buildKDTree ps depth))) = length (take m s)"
    using l by (metis size_mset)
  then have nl: "node_count (left (buildKDTree ps depth)) = length ps div 2"
    by (simp add: length_tree_points s_def m_def)
  have "length (tree_points (right (buildKDTree ps depth))) = length (drop (m + 1) s)"
    using r by (metis size_mset)
  then have "node_count (right (buildKDTree ps depth)) = length ps - (length ps div 2 + 1)"
    by (simp add: length_tree_points s_def m_def)
  then have nr: "node_count (right (buildKDTree ps depth)) = (length ps - 1) div 2"
    by presburger
  have ms: "mset s = mset ps"
    by (simp add: s_def)
  have wf: "ax = Some (depth mod k) \<and> s = sort_key (\<lambda>p. p ! (depth mod k)) ps \<and>
      sorted (map (\<lambda>p. p ! (depth mod k)) s)"
    if "(\<forall>p \<in> set ps. length p = k) \<and> 0 < k"
  proof -
    have "ps ! 0 \<in> set ps"
      using assms(1) by simp
    then have ax: "ax = Some (depth mod k)"
      using that by (simp add: ax_def js_mod_def)
    have "\<forall>p \<in> set ps. depth mod k < length p"
      using that by simp
    then have "s = sort_key (\<lambda>p. p ! (depth mod k)) ps"
      unfolding s_def ax by (rule js_sort_key)
    then show ?thesis
      using ax by simp
  qed
  show ?thesis
    using step ms l r nl nr wf by blast
qed

theorem buildKDTree_median_split_witness:
  "[[0, 0], [10, 0], [0, 10], [5, 5 :: real]] \<noteq> [] \<and>
   list_all (\<lambda>p. length p = 2) [[0, 0], [10, 0], [0, 10], [5, 5 :: real]] \<and>
   sort_key (\<lambda>p. p ! 0) [[0, 0], [10, 0], [0, 10], [5, 5 :: real]] =
     [[0, 0], [0, 10], [5, 5], [10, 0]] \<and>
   buildKDTree [[0, 0], [10, 0], [0, 10], [5, 5]] 0 =
     KDNode [5, 5] (Some 0) (buildKDTree [[0, 0], [0, 10]] 1) (buildKDTree [[10, 0]] 1) \<and>
   node_count (left (buildKDTree [[0, 0], [10, 0], [0, 10], [5, 5]] 0)) = 2 \<and>
   node_count (right (buildKDTree [[0, 0], [10, 0], [0, 10], [5, 5]] 0)) = 1"
proof -
  have "node_count (buildKDTree [[0, 0], [0, 10]] 1) = 2"
    and "node_count (buildKDTree [[10, 0]] 1) = 1"
    by (simp_all add: run_simps)
  moreover have "js_sort (\<lambda>a b. num_sub (idx a (Some 0)) (idx b (Some 0)))
      [[0, 0], [10, 0], [0, 10], [5, 5]] = [[0, 0], [0, 10], [5, 5], [10, 0 :: real]]"
    by (simp add: js_sort_def idx_def num_sub_def num_gt_def)
  ultimately show ?thesis
    using buildKDTree_median_split [of "[[0, 0], [10, 0], [0, 10], [5, 5]]" 0 2]
    by (simp add: upper_median_def js_mod_def)
qed


section \<open>The caller's array\<close>

lemma buildKDTree_store_run:
  "a < length h \<Longrightarrow> length (h ! a) < n \<Longrightarrow>
   \<exists>ext. buildKDTree_store n a d h = Some (buildKDTree (h ! a) d, h @ ext)"
proof (induction n arbitrary: a d h)
  case 0
  then show ?case by simp
next
  case (Suc n)
  define ps where "ps = h ! a"
  show ?case
  proof (cases "ps = []")
    case True
    then show ?thesis by (simp add: buildKDTree_Nil ps_def)
  next
    case False
    define axis where "axis = js_mod d (length (ps ! 0))"
    define s where "s = js_sort (\<lambda>a b. num_sub (idx a axis) (idx b axis)) ps"
    define m where "m = length s div 2"
    define h2 where "h2 = h @ [s]"
    define h3 where "h3 = h2 @ [take m s]"
    have m: "m < length s"
      using False by (simp add: m_def s_def)
    have "length h2 < length h3" "length (h3 ! length h2) < n"
      using m Suc.prems(2) by (simp_all add: h3_def s_def ps_def)
    then obtain e1 where e1: "buildKDTree_store n (length h2) (d + 1) h3 =
        Some (buildKDTree (h3 ! length h2) (d + 1), h3 @ e1)"
      using Suc.IH by blast
    define h5 where "h5 = (h3 @ e1) @ [drop (m + 1) s]"
    have "length (h3 @ e1) < length h5" "length (h5 ! length (h3 @ e1)) < n"
      using m Suc.prems(2) by (simp_all add: h5_def s_def ps_def)
    then obtain e2 where e2: "buildKDTree_store n (length (h3 @ e1)) (d + 1) h5 =
        Some (buildKDTree (h5 ! length (h3 @ e1)) (d + 1), h5 @ e2)"
      using Suc.IH by blast
    have sorted_kept: "(h3 @ e1) ! length h = s"
      by (simp add: h3_def h2_def nth_append)
    have h2s: "h2 ! length h = s"
      by (simp add: h2_def)
    have sp: "spread a h = (length h, h @ [ps])"
      by (simp add: spread_def ps_def)
    have so: "sort_in_place (\<lambda>a b. num_sub (idx a axis) (idx b axis)) (length h) (h @ [ps]) = (length h, h2)"
      by (simp add: sort_in_place_def h2_def s_def)
    have sl: "slice (length h) 0 m h2 = (length h2, h3)"
      by (simp add: slice_def h3_def h2_def)
    have sf: "slice_from (length h) (m + 1) (h3 @ e1) = (length (h3 @ e1), h5)"
      using sorted_kept by (simp add: slice_from_def h5_def)
    have l: "h3 ! length h2 = take m s"
      by (simp add: h3_def)
    have r: "h5 ! length (h3 @ e1) = drop (m + 1) s"
      by (simp add: h5_def nth_append)
    have run: "buildKDTree_store (Suc n) a d h =
        Some (KDNode (s ! m) axis (buildKDTree (take m s) (d + 1)) (buildKDTree (drop (m + 1) s) (d + 1)), h5 @ e2)"
      using False
      by (simp only: buildKDTree_store.simps ps_def [symmetric] if_False Let_def axis_def [symmetric]
          sp so prod.case h2s m_def [symmetric] sl e1 l option.case sf e2 r)
    have "buildKDTree ps d =
        KDNode (s ! m) axis (buildKDTree (take m s) (d + 1)) (buildKDTree (drop (m + 1) s) (d + 1))"
      using False by (simp add: buildKDTree_Cons Let_def axis_def s_def m_def)
    moreover have "h5 @ e2 = h @ ([s] @ [take m s] @ e1 @ [drop (m + 1) s] @ e2)"
      by (simp add: h5_def h3_def h2_def)
    ultimately show ?thesis
      using run unfolding ps_def [symmetric] by metis
  qed
qed

text \<open>
  C8. Run on a store with enough fuel, \<open>buildKDTree\<close> returns the tree of the points at
  its argument's address and a store that extends the old one: every array that existed
  before the call, the argument among them, holds the same points in the same order, and
  the only change is that new arrays were allocated.
\<close>

theorem buildKDTree_store_frame:
  assumes "points < length h" and "length (h ! points) < fuel"
  shows "\<exists>h'. buildKDTree_store fuel points depth h = Some (buildKDTree (h ! points) depth, h') \<and>
              take (length h) h' = h \<and> h' ! points = h ! points"
proof -
  obtain ext where "buildKDTree_store fuel points depth h = Some (buildKDTree (h ! points) depth, h @ ext)"
    using buildKDTree_store_run [OF assms] by blast
  moreover have "take (length h) (h @ ext) = h" and "(h @ ext) ! points = h ! points"
    using assms(1) by (simp_all add: nth_append)
  ultimately show ?thesis by blast
qed

theorem buildKDTree_store_frame_witness:
  "(0 :: nat) < length [[[0, 0], [10, 0], [0, 10 :: real]]] \<and>
   length ([[[0, 0], [10, 0], [0, 10 :: real]]] ! 0) < 4 \<and>
   (\<exists>h'. buildKDTree_store 4 0 0 [[[0, 0], [10, 0], [0, 10]]] =
            Some (buildKDTree [[0, 0], [10, 0], [0, 10]] 0, h') \<and>
          take 1 h' = [[[0, 0], [10, 0], [0, 10]]] \<and> h' ! 0 = [[0, 0], [10, 0], [0, 10]])"
  using buildKDTree_store_frame [of 0 "[[[0, 0], [10, 0], [0, 10]]]" 4 0] by simp


section \<open>The projection\<close>

text \<open>
  C9. For a latitude strictly between -90 and 90 degrees the projection of (lon, lat) is
  \<open>(R * \<lambda>, R * ln (tan (\<pi> / 4 + \<phi> / 2)))\<close> with \<open>\<lambda>\<close> and \<open>\<phi>\<close> the longitude and
  latitude in radians, both coordinates scaled by the same radius \<open>R\<close>.
\<close>

theorem lonLatToMercator_formula:
  assumes "- 90 < lat" and "lat < 90"
  shows "lonLatToMercator (lon, lat) =
         (R * radians lon, Some (R * ln (tan (pi / 4 + radians lat / 2))))"
proof -
  define th where "th = pi / 4 + lat * pi / 180 / 2"
  have "th = pi * (1 / 4 + lat / 360)"
    by (simp add: th_def algebra_simps)
  moreover have "0 < 1 / 4 + lat / 360" and "1 / 4 + lat / 360 < 1 / 2"
    using assms by simp_all
  ultimately have "0 < th" and "th < pi / 2"
    by (simp_all add: zero_less_mult_iff)
  then have "0 < cos th" and "0 < tan th"
    by (simp_all add: cos_gt_zero tan_gt_zero)
  then show ?thesis
    by (simp add: lonLatToMercator_def Let_def js_tan_def js_log_def num_mul_def radians_def th_def)
qed

theorem lonLatToMercator_formula_witness:
  "(- 90 :: real) < 0 \<and> (0 :: real) < 90 \<and> lonLatToMercator (0, 0) = (0, Some 0)"
  using lonLatToMercator_formula [of 0 0] by (simp add: radians_def tan_45)


section \<open>Termination\<close>

lemma buildKDTree_fuel_enough:
  "length ps < n \<Longrightarrow> buildKDTree_fuel n ps d = Some (buildKDTree ps d)"
proof (induction n arbitrary: ps d)
  case 0
  then show ?case by simp
next
  case (Suc n)
  show ?case
  proof (cases "ps = []")
    case True
    then show ?thesis by (simp add: buildKDTree_Nil)
  next
    case False
    define axis where "axis = js_mod d (length (ps ! 0))"
    define s where "s = js_sort (\<lambda>a b. num_sub (idx a axis) (idx b axis)) ps"
    define m where "m = length s div 2"
    have m: "m < length s"
      using False by (simp add: m_def s_def)
    have l: "buildKDTree_fuel n (take m s) (d + 1) = Some (buildKDTree (take m s) (d + 1))"
      using m Suc.prems by (intro Suc.IH) (simp add: s_def)
    have r: "buildKDTree_fuel n (drop (m + 1) s) (d + 1) = Some (buildKDTree (drop (m + 1) s) (d + 1))"
      using m Suc.prems by (intro Suc.IH) (simp add: s_def)
    show ?thesis
      using False l r
      by (simp add: buildKDTree_Cons Let_def axis_def s_def m_def)
  qed
qed

lemma rangeSearch_fuel_enough:
  "height t < n \<Longrightarrow> rangeSearch_fuel n t target r d res = Some (rangeSearch t target r d res)"
proof (induction n arbitrary: t d res)
  case 0
  then show ?case by simp
next
  case (Suc n)
  show ?case
  proof (cases t)
    case Null
    then show ?thesis by simp
  next
    case (KDNode p a l rt)
    then have "height l < n" and "height rt < n"
      using Suc.prems by simp_all
    then have "rangeSearch_fuel n l target r d' res' = Some (rangeSearch l target r d' res')"
      and "rangeSearch_fuel n rt target r d' res' = Some (rangeSearch rt target r d' res')" for d' res'
      by (simp_all add: Suc.IH)
    then show ?thesis
      by (simp add: KDNode Let_def)
  qed
qed

text \<open>
  C10. With more fuel than there are points, \<open>buildKDTree\<close> returns, and with more fuel
  than the tree is high, \<open>rangeSearch\<close> returns, each with the result of the total
  function; the two slices that \<open>buildKDTree\<close> recurses on are strictly shorter than its
  argument, and the two children that \<open>rangeSearch\<close> recurses on are strictly lower than
  the node.
\<close>

theorem recursion_terminates:
  "(length ps < n \<longrightarrow> buildKDTree_fuel n ps d = Some (buildKDTree ps d)) \<and>
   (height t < n' \<longrightarrow> rangeSearch_fuel n' t target r d' res = Some (rangeSearch t target r d' res)) \<and>
   (ps \<noteq> [] \<longrightarrow>
      length (take (length (js_sort c ps) div 2) (js_sort c ps)) < length ps \<and>
      length (drop (length (js_sort c ps) div 2 + 1) (js_sort c ps)) < length ps) \<and>
   height l < height (KDNode p a l rt) \<and> height rt < height (KDNode p a l rt)"
  by (simp add: buildKDTree_fuel_enough rangeSearch_fuel_enough less_Suc_eq_le)

theorem recursion_terminates_witness:
  "buildKDTree_fuel 4 [[0, 0], [10, 0], [0, 10]] 0 =
     Some (KDNode [0, 10] (Some 0) (KDNode [0, 0] (Some 1) Null Null) (KDNode [10, 0] (Some 1) Null Null)) \<and>
   rangeSearch_fuel 3
     (KDNode [0, 10] (Some 0) (KDNode [0, 0] (Some 1) Null Null) (KDNode [10, 0] (Some 1) Null Null))
     [0, 0] 5 0 [] = Some [KDNode [0, 0] (Some 1) Null Null]"
proof -
  have "length [[0, 0], [10, 0], [0, 10 :: real]] < 4"
    by simp
  moreover have "height (KDNode [0, 10] (Some 0) (KDNode [0, 0] (Some 1) Null Null)
      (KDNode [10, 0] (Some 1) Null Null)) < 3"
    by simp
  ultimately have "buildKDTree_fuel 4 [[0, 0], [10, 0], [0, 10]] 0 =
      Some (buildKDTree [[0, 0], [10, 0], [0, 10]] 0)"
    and "rangeSearch_fuel 3
      (KDNode [0, 10] (Some 0) (KDNode [0, 0] (Some 1) Null Null) (KDNode [10, 0] (Some 1) Null Null))
      [0, 0] 5 0 [] =
      Some (rangeSearch
        (KDNode [0, 10] (Some 0) (KDNode [0, 0] (Some 1) Null Null) (KDNode [10, 0] (Some 1) Null Null))
        [0, 0] 5 0 [])"
    using recursion_terminates [of "[[0, 0], [10, 0], [0, 10]]" 4 0
      "KDNode [0, 10] (Some 0) (KDNode [0, 0] (Some 1) Null Null) (KDNode [10, 0] (Some 1) Null Null)"
      3 "[0, 0]" 5 0 "[]"]
    by blast+
  then show ?thesis
    by (simp add: run_simps)
qed


end
